theory Spec2Isabelle
  imports Complex_Main "HOL-Library.Sublist"
begin

section \<open>JavaScript strings and numbers as the program uses them\<close>

text \<open>
  The program is \<^verbatim>\<open>src/index.js\<close>. Its strings are modelled as \<^typ>\<open>string\<close>
  (code units below 256); its numbers are IEEE binary64 values. A finite value is kept as
  the rational it denotes, and \<open>-0\<close> is identified with \<open>0\<close>: the program only compares
  numbers, prints them in base 2 and counts a loop with them, and \<open>-0\<close> behaves as \<open>0\<close> in
  all three.
\<close>

datatype jsnum = NaN | PosInf | NegInf | Fin rat

fun js_isNaN :: "jsnum \<Rightarrow> bool" where
  "js_isNaN NaN = True"
| "js_isNaN _ = False"

text \<open>The relational operator \<^verbatim>\<open><\<close> on numbers: false as soon as one side is \<open>NaN\<close>.\<close>

fun js_less :: "jsnum \<Rightarrow> jsnum \<Rightarrow> bool" where
  "js_less NaN _ = False"
| "js_less _ NaN = False"
| "js_less (Fin a) (Fin b) = (a < b)"
| "js_less PosInf _ = False"
| "js_less _ NegInf = False"
| "js_less NegInf _ = True"
| "js_less _ PosInf = True"

subsection \<open>Rounding a rational to binary64\<close>

fun bitlen :: "nat \<Rightarrow> nat" where
  "bitlen n = (if n = 0 then 0 else Suc (bitlen (n div 2)))"

declare bitlen.simps [simp del]

definition pow2 :: "int \<Rightarrow> rat" where
  "pow2 e = (if 0 \<le> e then 2 ^ nat e else 1 / 2 ^ nat (- e))"

definition pow10 :: "int \<Rightarrow> rat" where
  "pow10 e = (if 0 \<le> e then 10 ^ nat e else 1 / 10 ^ nat (- e))"

text \<open>For \<open>a > 0\<close>, the exponent \<open>e\<close> with \<open>2^e \<le> a < 2^(e+1)\<close>.\<close>

definition binade :: "rat \<Rightarrow> int" where
  "binade a = (if 1 \<le> a then int (bitlen (nat \<lfloor>a\<rfloor>)) - 1
               else - int (bitlen (nat (\<lceil>1 / a\<rceil> - 1))))"

definition round_half_even :: "rat \<Rightarrow> int" where
  "round_half_even x =
     (let f = \<lfloor>x\<rfloor>; r = x - of_int f
      in if r < 1 / 2 then f else if 1 / 2 < r then f + 1
         else if even f then f else f + 1)"

text \<open>
  Round to nearest, ties to even, with 53 significant bits, subnormals below \<open>2^-1022\<close>
  and overflow to infinity from \<open>2^1024\<close> on. This is the Number value that ECMAScript
  gives to a literal (an engine may round otherwise only past 20 significant digits).
\<close>

definition to_double :: "rat \<Rightarrow> jsnum" where
  "to_double q =
     (if q = 0 then Fin 0
      else let a = \<bar>q\<bar>;
               e = max (binade a) (- 1022);
               u = pow2 (e - 52);
               v = of_int (round_half_even (a / u)) * u
           in if pow2 1024 \<le> v then (if 0 < q then PosInf else NegInf)
              else Fin (if 0 < q then v else - v))"

subsection \<open>\<^verbatim>\<open>Number(string)\<close>\<close>

text \<open>
  The grammar \<open>StringNumericLiteral\<close> of ECMAScript: white space is trimmed, the empty
  string is \<open>0\<close>, then either an unsigned literal in base 16, 8 or 2, or an optionally
  signed \<open>Infinity\<close> or decimal literal with optional fraction and exponent. Anything
  else is \<open>NaN\<close>.
\<close>

definition is_ws :: "char \<Rightarrow> bool" where
  "is_ws c = ((of_char c :: nat) \<in> {9, 10, 11, 12, 13, 32, 160})"

definition trim :: "string \<Rightarrow> string" where
  "trim s = rev (dropWhile is_ws (rev (dropWhile is_ws s)))"

definition digit_val :: "char \<Rightarrow> nat" where
  "digit_val c =
     (let n = (of_char c :: nat)
      in if 48 \<le> n \<and> n \<le> 57 then n - 48
         else if 97 \<le> n \<and> n \<le> 102 then n - 87
         else if 65 \<le> n \<and> n \<le> 70 then n - 55
         else 16)"

definition is_digit :: "nat \<Rightarrow> char \<Rightarrow> bool" where
  "is_digit b c = (digit_val c < b)"

definition digits_val :: "nat \<Rightarrow> string \<Rightarrow> nat" where
  "digits_val b s = foldl (\<lambda>a c. a * b + digit_val c) 0 s"

definition parse_digits :: "nat \<Rightarrow> string \<Rightarrow> nat option" where
  "parse_digits b s =
     (if s \<noteq> [] \<and> list_all (is_digit b) s then Some (digits_val b s) else None)"

definition signed_integer :: "string \<Rightarrow> int option" where
  "signed_integer s =
     (case s of
        [] \<Rightarrow> None
      | c # r \<Rightarrow>
          if c = CHR ''+'' then map_option int (parse_digits 10 r)
          else if c = CHR ''-'' then map_option (\<lambda>n. - int n) (parse_digits 10 r)
          else map_option int (parse_digits 10 s))"

definition exponent_part :: "string \<Rightarrow> int option" where
  "exponent_part s =
     (case s of
        [] \<Rightarrow> Some 0
      | c # r \<Rightarrow> if c = CHR ''e'' \<or> c = CHR ''E'' then signed_integer r else None)"

definition str_unsigned_decimal :: "string \<Rightarrow> rat option" where
  "str_unsigned_decimal s =
     (let ip = takeWhile (is_digit 10) s;
          r1 = dropWhile (is_digit 10) s;
          dot = (r1 \<noteq> [] \<and> hd r1 = CHR ''.'');
          fp = (if dot then takeWhile (is_digit 10) (tl r1) else []);
          r2 = (if dot then dropWhile (is_digit 10) (tl r1) else r1)
      in if ip = [] \<and> fp = [] then None
         else case exponent_part r2 of
                None \<Rightarrow> None
              | Some ex \<Rightarrow>
                  Some (of_nat (digits_val 10 (ip @ fp)) * pow10 (ex - int (length fp))))"

definition non_decimal :: "string \<Rightarrow> nat option" where
  "non_decimal s =
     (case s of
        c0 # c1 # ds \<Rightarrow>
          if c0 \<noteq> CHR ''0'' then None
          else if c1 = CHR ''x'' \<or> c1 = CHR ''X'' then parse_digits 16 ds
          else if c1 = CHR ''o'' \<or> c1 = CHR ''O'' then parse_digits 8 ds
          else if c1 = CHR ''b'' \<or> c1 = CHR ''B'' then parse_digits 2 ds
          else None
      | _ \<Rightarrow> None)"

definition signed_decimal :: "string \<Rightarrow> jsnum" where
  "signed_decimal t =
     (let neg = (hd t = CHR ''-'');
          u = (if hd t = CHR ''-'' \<or> hd t = CHR ''+'' then tl t else t)
      in if u = ''Infinity'' then (if neg then NegInf else PosInf)
         else (case str_unsigned_decimal u of
                 None \<Rightarrow> NaN
               | Some mv \<Rightarrow> to_double (if neg then - mv else mv)))"

definition Number :: "string \<Rightarrow> jsnum" where
  "Number s =
     (let t = trim s
      in if t = [] then Fin 0
         else (case non_decimal t of
                 Some n \<Rightarrow> to_double (of_nat n)
               | None \<Rightarrow> signed_decimal t))"

subsection \<open>\<^verbatim>\<open>toString(2)\<close>, \<^verbatim>\<open>padStart\<close>, \<^verbatim>\<open>split\<close>, indexing\<close>

definition bit_char :: "nat \<Rightarrow> char" where
  "bit_char b = (if b = 0 then CHR ''0'' else CHR ''1'')"

fun bin_digits :: "nat \<Rightarrow> string" where
  "bin_digits n = (if n < 2 then [bit_char n] else bin_digits (n div 2) @ [bit_char (n mod 2)])"

declare bin_digits.simps [simp del]

text \<open>
  The digits after the point. A binary64 value has at most 1074 of them, so the fuel is
  never exhausted on a value that \<open>to_double\<close> returns.
\<close>

fun frac_bits :: "nat \<Rightarrow> rat \<Rightarrow> string" where
  "frac_bits 0 f = []"
| "frac_bits (Suc k) f =
     (if f = 0 then []
      else if 1 \<le> 2 * f then CHR ''1'' # frac_bits k (2 * f - 1)
      else CHR ''0'' # frac_bits k (2 * f))"

definition unsigned_base2 :: "rat \<Rightarrow> string" where
  "unsigned_base2 a =
     (let f = a - of_int \<lfloor>a\<rfloor>
      in bin_digits (nat \<lfloor>a\<rfloor>) @ (if f = 0 then [] else CHR ''.'' # frac_bits 1074 f))"

fun toString2 :: "jsnum \<Rightarrow> string" where
  "toString2 NaN = ''NaN''"
| "toString2 PosInf = ''Infinity''"
| "toString2 NegInf = ''-Infinity''"
| "toString2 (Fin q) = (if q < 0 then CHR ''-'' # unsigned_base2 (- q) else unsigned_base2 q)"

definition padStart :: "nat \<Rightarrow> char \<Rightarrow> string \<Rightarrow> string" where
  "padStart n c s = replicate (n - length s) c @ s"

text \<open>\<^verbatim>\<open>s.split(c)\<close> for a one-character separator: never empty, one field more than
  there are separators.\<close>

fun split :: "char \<Rightarrow> string \<Rightarrow> string list" where
  "split c [] = [[]]"
| "split c (x # xs) =
     (if x = c then [] # split c xs
      else (case split c xs of [] \<Rightarrow> [[x]] | f # fs \<Rightarrow> (x # f) # fs))"

text \<open>
  \<^verbatim>\<open>s[i]\<close> used as a property key: the one-character string at \<open>i\<close>, and
  \<^verbatim>\<open>undefined\<close> (the key \<^verbatim>\<open>"undefined"\<close>) out of range.
\<close>

definition char_key :: "string \<Rightarrow> nat \<Rightarrow> string" where
  "char_key s i = (if i < length s then [s ! i] else ''undefined'')"

section \<open>The address codec\<close>

text \<open>One constructor for each \<^verbatim>\<open>throw new Error(...)\<close> of the source, carrying the
  string that the message interpolates.\<close>

datatype error =
    InvalidIPFormat string
  | InvalidOctet string
  | InvalidCIDRFormat string
  | InvalidPrefixLength string

text \<open>The callback of \<^verbatim>\<open>octets.map\<close> in \<^verbatim>\<open>ipToBinary\<close>.\<close>

definition octetToBinary :: "string \<Rightarrow> error + string" where
  "octetToBinary octet =
     (let num = Number octet
      in if js_isNaN num \<or> js_less num (Fin 0) \<or> js_less (Fin 255) num
         then Inl (InvalidOctet octet)
         else Inr (padStart 8 CHR ''0'' (toString2 num)))"

text \<open>\<^verbatim>\<open>Array.prototype.map\<close> with a callback that may throw: left to right, the
  first throw ends the call.\<close>

fun map_throw :: "('a \<Rightarrow> error + 'b) \<Rightarrow> 'a list \<Rightarrow> error + 'b list" where
  "map_throw f [] = Inr []"
| "map_throw f (x # xs) =
     (case f x of
        Inl e \<Rightarrow> Inl e
      | Inr y \<Rightarrow> (case map_throw f xs of Inl e \<Rightarrow> Inl e | Inr ys \<Rightarrow> Inr (y # ys)))"

definition ipToBinary :: "string \<Rightarrow> error + string" where
  "ipToBinary ip =
     (let octets = split CHR ''.'' ip
      in if length octets \<noteq> 4 then Inl (InvalidIPFormat ip)
         else (case map_throw octetToBinary octets of
                 Inl e \<Rightarrow> Inl e
               | Inr bs \<Rightarrow> Inr (concat bs)))"

definition parseCIDR :: "string \<Rightarrow> error + (string \<times> jsnum)" where
  "parseCIDR cidr =
     (let parts = split CHR ''/'' cidr
      in if length parts \<noteq> 2 then Inl (InvalidCIDRFormat cidr)
         else let ip = parts ! 0;
                  prefixLength = Number (parts ! 1)
              in if js_isNaN prefixLength \<or> js_less prefixLength (Fin 0)
                    \<or> js_less (Fin 32) prefixLength
                 then Inl (InvalidPrefixLength cidr)
                 else (case ipToBinary ip of
                         Inl e \<Rightarrow> Inl e
                       | Inr _ \<Rightarrow> Inr (ip, prefixLength)))"

section \<open>The prefix trie\<close>

text \<open>
  A \<^verbatim>\<open>TrieNode\<close> has \<^verbatim>\<open>children\<close>, an object used as a dictionary from property
  keys to nodes, and \<^verbatim>\<open>data\<close>, an array. Every node is created by
  \<^verbatim>\<open>new TrieNode()\<close> inside \<^verbatim>\<open>insert\<close> and stored in one parent only, so the
  object graph is a tree and is modelled as a value. The keys the program looks up are
  one-character strings or \<^verbatim>\<open>"undefined"\<close>, none of which is inherited from
  \<^verbatim>\<open>Object.prototype\<close>, so a lookup sees own properties only.
\<close>

datatype 'a trienode =
  TrieNode (children: "string \<Rightarrow> 'a trienode option") (data: "'a list")

definition new_TrieNode :: "'a trienode" where
  "new_TrieNode = TrieNode (\<lambda>_. None) []"

datatype 'a trie = Trie (root: "'a trienode")

definition new_Trie :: "'a trie" where
  "new_Trie = Trie new_TrieNode"

text \<open>
  The indices \<open>i\<close> for which the body of \<^verbatim>\<open>for (let i = 0; i < n; i++)\<close> runs. For a
  finite \<open>n\<close> these are \<open>0, \<dots>, \<lceil>n\<rceil> - 1\<close>; the loop does not run for \<open>NaN\<close> and
  \<open>-Infinity\<close>. It would not end for \<open>+Infinity\<close>, which \<^verbatim>\<open>parseCIDR\<close> never returns
  (lemma \<open>parseCIDR_prefixLength\<close> below); the value given here for it is never used.
\<close>

fun for_indices :: "jsnum \<Rightarrow> nat list" where
  "for_indices (Fin q) = [0..<nat \<lceil>q\<rceil>]"
| "for_indices _ = []"

text \<open>The loop of \<^verbatim>\<open>insert\<close> followed by \<^verbatim>\<open>node.data.push(data)\<close>, along the keys
  \<^verbatim>\<open>binaryIp[0]\<close>, \<^verbatim>\<open>binaryIp[1]\<close>, \<dots>\<close>

fun insert_walk :: "string list \<Rightarrow> 'a \<Rightarrow> 'a trienode \<Rightarrow> 'a trienode" where
  "insert_walk [] d (TrieNode cs ds) = TrieNode cs (ds @ [d])"
| "insert_walk (k # ks) d (TrieNode cs ds) =
     (let child = (case cs k of None \<Rightarrow> new_TrieNode | Some c \<Rightarrow> c)
      in TrieNode (cs(k := Some (insert_walk ks d child))) ds)"

text \<open>
  \<^verbatim>\<open>Trie.insert\<close>: the outcome of the call and the trie after it. Both throwing calls
  come before the first assignment, so a call that throws leaves the trie as it was.
\<close>

definition insert :: "'a trie \<Rightarrow> string \<Rightarrow> 'a \<Rightarrow> (error + unit) \<times> 'a trie" where
  "insert t cidr d =
     (case parseCIDR cidr of
        Inl e \<Rightarrow> (Inl e, t)
      | Inr (ip, prefixLength) \<Rightarrow>
          (case ipToBinary ip of
             Inl e \<Rightarrow> (Inl e, t)
           | Inr binaryIp \<Rightarrow>
               (Inr (),
                Trie (insert_walk (map (char_key binaryIp) (for_indices prefixLength)) d
                        (root t)))))"

text \<open>The loop of \<^verbatim>\<open>searchAll\<close>: it starts at the node it is given and collects the
  \<^verbatim>\<open>data\<close> of each child it moves to, until a child is missing or the keys end.\<close>

fun search_walk :: "string list \<Rightarrow> 'a trienode \<Rightarrow> 'a list" where
  "search_walk [] node = []"
| "search_walk (k # ks) node =
     (case children node k of
        None \<Rightarrow> []
      | Some c \<Rightarrow> data c @ search_walk ks c)"

definition searchAll :: "'a trie \<Rightarrow> string \<Rightarrow> error + 'a list" where
  "searchAll t ip =
     (case ipToBinary ip of
        Inl e \<Rightarrow> Inl e
      | Inr binaryIp \<Rightarrow> Inr (search_walk (map (char_key binaryIp) [0..<32]) (root t)))"

text \<open>A sequence of \<^verbatim>\<open>insert\<close> calls on one trie, each failure ignored by the caller
  (as the \<^verbatim>\<open>try\<close>/\<^verbatim>\<open>catch\<close> in \<^verbatim>\<open>findAllIpsInTrie\<close> does).\<close>

fun insert_all :: "'a trie \<Rightarrow> (string \<times> 'a) list \<Rightarrow> 'a trie" where
  "insert_all t [] = t"
| "insert_all t ((cidr, d) # rest) = insert_all (snd (insert t cidr d)) rest"

section \<open>Notions used to state the properties\<close>

text \<open>The \<open>k\<close>-bit big-endian binary representation of \<open>n\<close>: position \<open>i\<close> holds the bit
  of weight \<open>2^(k-1-i)\<close>, most significant bit first.\<close>

definition bits_be :: "nat \<Rightarrow> nat \<Rightarrow> string" where
  "bits_be k n = map (\<lambda>i. bit_char ((n div 2 ^ (k - 1 - i)) mod 2)) [0..<k]"

text \<open>Decoding: group by 8 characters and read each group as a binary numeral.\<close>

definition bin_value :: "string \<Rightarrow> nat" where
  "bin_value s = foldl (\<lambda>a c. 2 * a + (if c = CHR ''1'' then 1 else 0)) 0 s"

fun groups8 :: "string \<Rightarrow> string list" where
  "groups8 s = (if s = [] then [] else take 8 s # groups8 (drop 8 s))"

declare groups8.simps [simp del]

definition decode :: "string \<Rightarrow> nat list" where
  "decode s = map bin_value (groups8 s)"

text \<open>The node reached from a node along a sequence of keys, and the records stored
  there (none when there is no such node).\<close>

fun node_at :: "string list \<Rightarrow> 'a trienode \<Rightarrow> 'a trienode option" where
  "node_at [] node = Some node"
| "node_at (k # ks) node =
     (case children node k of None \<Rightarrow> None | Some c \<Rightarrow> node_at ks c)"

definition data_at :: "string list \<Rightarrow> 'a trienode \<Rightarrow> 'a list" where
  "data_at ks node = (case node_at ks node of None \<Rightarrow> [] | Some m \<Rightarrow> data m)"

text \<open>The keys of the first \<open>n\<close> characters of a string.\<close>

definition keys_of :: "nat \<Rightarrow> string \<Rightarrow> string list" where
  "keys_of n s = map (\<lambda>c. [c]) (take n s)"

text \<open>The keys along which a successful \<^verbatim>\<open>insert\<close> of a CIDR string walks: the value
  of \<^verbatim>\<open>binaryIp[i]\<close> at each index of its loop. \<open>None\<close> when the call throws.\<close>

definition insert_path :: "string \<Rightarrow> string list option" where
  "insert_path cidr =
     (case parseCIDR cidr of
        Inl e \<Rightarrow> None
      | Inr (ip, prefixLength) \<Rightarrow>
          (case ipToBinary ip of
             Inl e \<Rightarrow> None
           | Inr binaryIp \<Rightarrow> Some (map (char_key binaryIp) (for_indices prefixLength))))"

text \<open>Among a sequence of \<^verbatim>\<open>insert\<close> calls, the records of the calls that walk along
  the keys \<open>p\<close>, in call order.\<close>

definition stored_at :: "(string \<times> 'a) list \<Rightarrow> string list \<Rightarrow> 'a list" where
  "stored_at calls p = map snd (filter (\<lambda>call. insert_path (fst call) = Some p) calls)"

section \<open>Numbers: rounding and parsing\<close>

lemma bitlen_bounds: "0 < n \<Longrightarrow> 2 ^ (bitlen n - 1) \<le> n \<and> n < 2 ^ bitlen n"
proof (induction n rule: bitlen.induct)
  case (1 n)
  show ?case
  proof (cases "n div 2 = 0")
    case True
    with 1(2) have "n = 1" by (auto simp: div_eq_0_iff)
    then show ?thesis by (simp add: bitlen.simps)
  next
    case False
    then have pos: "0 < n div 2" by simp
    from 1(1)[OF _ pos] 1(2)
    have IH: "2 ^ (bitlen (n div 2) - 1) \<le> n div 2" "n div 2 < 2 ^ bitlen (n div 2)" by auto
    have bl: "bitlen n = Suc (bitlen (n div 2))" using 1(2) by (subst bitlen.simps) simp
    have b1: "0 < bitlen (n div 2)" using pos by (subst bitlen.simps) simp
    then obtain b where b: "bitlen (n div 2) = Suc b" by (cases "bitlen (n div 2)") auto
    show ?thesis using IH unfolding bl b by auto
  qed
qed

lemma round_half_even_of_int: "round_half_even (of_int m) = m"
  by (simp add: round_half_even_def)

lemma to_double_of_nat:
  assumes "n < 2 ^ 53"
  shows "to_double (of_nat n) = Fin (of_nat n)"
proof (cases "n = 0")
  case True
  then show ?thesis by (simp add: to_double_def)
next
  case False
  then have pos: "0 < n" by simp
  from bitlen_bounds[OF pos] have lo: "2 ^ (bitlen n - 1) \<le> n" and hi: "n < 2 ^ bitlen n" by auto
  have bpos: "0 < bitlen n" using pos by (subst bitlen.simps) simp
  have "(2::nat) ^ (bitlen n - 1) < 2 ^ 53" using lo assms by linarith
  then have "bitlen n - 1 < 53" by (simp only: power_strict_increasing_iff one_less_numeral_iff semiring_norm)
  then have ble: "bitlen n \<le> 53" by simp
  define k where "k = 53 - bitlen n"
  have bin: "binade (of_nat n) = int (bitlen n) - 1"
    using pos by (simp add: binade_def)
  have e: "max (binade (of_nat n)) (- 1022) = int (bitlen n) - 1" using bin by simp
  have u: "pow2 (int (bitlen n) - 1 - 52) = 1 / 2 ^ k"
    using ble bpos by (auto simp: pow2_def k_def nat_diff_distrib' intro: arg_cong[where f="\<lambda>x. 1 / (2::rat) ^ x"])
  have q: "(of_nat n :: rat) / (1 / 2 ^ k) = of_int (int n * 2 ^ k)" by simp
  have v: "of_int (round_half_even ((of_nat n :: rat) / (1 / 2 ^ k))) * (1 / 2 ^ k) = (of_nat n :: rat)"
    unfolding q round_half_even_of_int by simp
  have "(of_nat n :: rat) < of_nat (2 ^ 53)" using assms by (simp only: of_nat_less_iff)
  also have "\<dots> = 2 ^ 53" by simp
  also have "\<dots> \<le> (2::rat) ^ 1024" by (rule power_increasing) simp_all
  finally have small: "\<not> pow2 1024 \<le> (of_nat n :: rat)" by (simp add: pow2_def)
  have nz: "(of_nat n :: rat) \<noteq> 0" "0 < (of_nat n :: rat)" using pos by simp_all
  show ?thesis
    unfolding to_double_def Let_def using nz small
    by (simp only: abs_of_nat e u v if_False if_True)
qed


lemma is_digit10_iff: "is_digit 10 c \<longleftrightarrow> 48 \<le> (of_char c :: nat) \<and> (of_char c :: nat) \<le> 57"
  by (auto simp: is_digit_def digit_val_def Let_def)

lemma is_digit10_not_ws: "is_digit 10 c \<Longrightarrow> \<not> is_ws c"
  by (auto simp: is_digit10_iff is_ws_def)

lemma dropWhile_none: "\<forall>c\<in>set s. \<not> P c \<Longrightarrow> dropWhile P s = s"
  by (cases s) auto

lemma trim_digits:
  assumes "list_all (is_digit 10) s"
  shows "trim s = s"
proof -
  have "\<forall>c\<in>set s. \<not> is_ws c" using assms by (auto simp: list_all_iff is_digit10_not_ws)
  then have "dropWhile is_ws s = s" "dropWhile is_ws (rev s) = rev s"
    by (simp_all add: dropWhile_none)
  then show ?thesis by (simp add: trim_def)
qed

lemma non_decimal_digits:
  assumes "list_all (is_digit 10) s"
  shows "non_decimal s = None"
proof (cases s)
  case Nil
  then show ?thesis by (simp add: non_decimal_def)
next
  case (Cons c0 r)
  show ?thesis
  proof (cases r)
    case Nil
    with Cons show ?thesis by (simp add: non_decimal_def)
  next
    case (Cons c1 ds)
    with assms \<open>s = c0 # r\<close> have "is_digit 10 c1" by simp
    then have "c1 \<noteq> CHR ''x''" "c1 \<noteq> CHR ''X''" "c1 \<noteq> CHR ''o''" "c1 \<noteq> CHR ''O''"
      "c1 \<noteq> CHR ''b''" "c1 \<noteq> CHR ''B''"
      by (auto simp: is_digit10_iff)
    then show ?thesis using Cons \<open>s = c0 # r\<close> by (simp add: non_decimal_def)
  qed
qed

lemma str_unsigned_decimal_digits:
  assumes "s \<noteq> []" "list_all (is_digit 10) s"
  shows "str_unsigned_decimal s = Some (of_nat (digits_val 10 s))"
proof -
  have tw: "takeWhile (is_digit 10) s = s" using assms(2) by (simp add: list_all_iff)
  have dw: "dropWhile (is_digit 10) s = []" using assms(2) by (simp add: list_all_iff)
  show ?thesis
    using assms(1) by (simp add: str_unsigned_decimal_def tw dw exponent_part_def pow10_def)
qed

lemma signed_decimal_digits:
  assumes "s \<noteq> []" "list_all (is_digit 10) s"
  shows "signed_decimal s = to_double (of_nat (digits_val 10 s))"
proof -
  from assms obtain c r where s: "s = c # r" by (cases s) auto
  with assms have d: "is_digit 10 c" by simp
  then have c: "c \<noteq> CHR ''-''" "c \<noteq> CHR ''+''" "c \<noteq> CHR ''I''"
    by (auto simp: is_digit10_iff)
  then have "s \<noteq> ''Infinity''" using s by auto
  then show ?thesis
    using c s str_unsigned_decimal_digits[OF assms]
    by (simp add: signed_decimal_def Let_def)
qed

lemma Number_digits:
  assumes "s \<noteq> []" "list_all (is_digit 10) s" "digits_val 10 s < 2 ^ 53"
  shows "Number s = Fin (of_nat (digits_val 10 s))"
  using assms
  by (simp add: Number_def trim_digits non_decimal_digits signed_decimal_digits
      to_double_of_nat)

section \<open>Binary representations\<close>

lemma bits_be_Suc: "bits_be (Suc k) n = bits_be k (n div 2) @ [bit_char (n mod 2)]"
proof -
  have "\<And>i. i < k \<Longrightarrow> n div 2 ^ (Suc k - 1 - i) = (n div 2) div 2 ^ (k - 1 - i)"
  proof -
    fix i assume "i < k"
    then have "Suc k - 1 - i = Suc (k - 1 - i)" by simp
    then show "n div 2 ^ (Suc k - 1 - i) = (n div 2) div 2 ^ (k - 1 - i)"
      by (simp add: div_mult2_eq)
  qed
  then show ?thesis by (simp add: bits_be_def)
qed

lemma bits_be_0: "bits_be 0 n = []"
  by (simp add: bits_be_def)

lemma length_bits_be: "length (bits_be k n) = k"
  by (simp add: bits_be_def)

lemma set_bits_be: "set (bits_be k n) \<subseteq> {CHR ''0'', CHR ''1''}"
  by (auto simp: bits_be_def bit_char_def)

lemma bits_be_zero: "bits_be k 0 = replicate k CHR ''0''"
  by (induction k) (simp_all add: bits_be_0 bits_be_Suc bit_char_def replicate_append_same)

lemma pad_bin_digits:
  "n < 2 ^ Suc k \<Longrightarrow> padStart (Suc k) CHR ''0'' (bin_digits n) = bits_be (Suc k) n"
proof (induction k arbitrary: n)
  case 0
  then have "n < 2" by simp
  then show ?case
    by (subst bin_digits.simps) (simp add: padStart_def bits_be_Suc bits_be_0)
next
  case (Suc k)
  show ?case
  proof (cases "n < 2")
    case True
    then have "n div 2 = 0" by simp
    with True show ?thesis
      by (subst bin_digits.simps)
         (simp add: padStart_def bits_be_Suc[of "Suc k"] bits_be_zero)
  next
    case False
    from Suc.prems have lt: "n div 2 < 2 ^ Suc k" by simp
    have "length (padStart (Suc k) CHR ''0'' (bin_digits (n div 2))) = Suc k"
      using Suc.IH[OF lt] by (simp add: length_bits_be)
    then have len: "length (bin_digits (n div 2)) \<le> Suc k"
      by (simp add: padStart_def)
    have "padStart (Suc (Suc k)) CHR ''0'' (bin_digits n)
        = padStart (Suc k) CHR ''0'' (bin_digits (n div 2)) @ [bit_char (n mod 2)]"
      using False len by (subst bin_digits.simps) (simp add: padStart_def Suc_diff_le)
    then show ?thesis using Suc.IH[OF lt] by (simp add: bits_be_Suc[of "Suc k"])
  qed
qed

lemma bin_value_snoc: "bin_value (s @ [c]) = 2 * bin_value s + (if c = CHR ''1'' then 1 else 0)"
  by (simp add: bin_value_def)

lemma bin_value_bits_be: "n < 2 ^ k \<Longrightarrow> bin_value (bits_be k n) = n"
proof (induction k arbitrary: n)
  case 0
  then show ?case by (simp add: bits_be_0 bin_value_def)
next
  case (Suc k)
  then have "n div 2 < 2 ^ k" by simp
  from Suc.IH[OF this] have v: "bin_value (bits_be (Suc k) n)
      = 2 * (n div 2) + (if bit_char (n mod 2) = CHR ''1'' then 1 else 0)"
    by (simp add: bits_be_Suc bin_value_snoc)
  have "(if bit_char (n mod 2) = CHR ''1'' then 1 else 0) = n mod 2"
    by (cases "n mod 2 = 0") (simp_all add: bit_char_def)
  with v show ?case by simp
qed

lemma groups8_four:
  assumes "length a = 8" "length b = 8" "length c = 8" "length d = 8"
  shows "groups8 (a @ b @ c @ d) = [a, b, c, d]"
proof -
  have ne: "a \<noteq> []" "b \<noteq> []" "c \<noteq> []" "d \<noteq> []" using assms by auto
  have 1: "groups8 d = [d]" using assms ne by (subst groups8.simps) (simp add: groups8.simps[of "[]"])
  have 2: "groups8 (c @ d) = [c, d]" using assms ne 1 by (subst groups8.simps) simp
  have 3: "groups8 (b @ c @ d) = [b, c, d]" using assms ne 2 by (subst groups8.simps) simp
  show ?thesis using assms ne 3 by (subst groups8.simps) simp
qed

section \<open>The codec\<close>

lemma unsigned_base2_of_nat: "unsigned_base2 (of_nat n) = bin_digits n"
  by (simp add: unsigned_base2_def)

lemma octetToBinary_octet:
  assumes "Number f = Fin (of_nat n)" "n \<le> 255"
  shows "octetToBinary f = Inr (bits_be 8 n)"
proof -
  have "n < 2 ^ Suc 7" using assms(2) by simp
  from pad_bin_digits[OF this] have "padStart 8 CHR ''0'' (bin_digits n) = bits_be 8 n" by simp
  moreover have "\<not> (255::rat) < of_nat n" using assms(2) by (simp add: not_less)
  ultimately show ?thesis
    using assms by (simp add: octetToBinary_def unsigned_base2_of_nat)
qed

lemma octetToBinary_digits:
  assumes "s \<noteq> []" "list_all (is_digit 10) s" "digits_val 10 s \<le> 255"
  shows "octetToBinary s = Inr (bits_be 8 (digits_val 10 s))"
proof -
  have "digits_val 10 s < 2 ^ 53" using assms(3) by simp
  from Number_digits[OF assms(1,2) this] assms(3) show ?thesis
    by (rule octetToBinary_octet)
qed

lemma length_octetToBinary: "octetToBinary f = Inr b \<Longrightarrow> 8 \<le> length b"
  by (auto simp: octetToBinary_def padStart_def Let_def split: if_splits)

lemma map_throw_length: "map_throw f xs = Inr ys \<Longrightarrow> length ys = length xs"
  by (induction xs arbitrary: ys) (auto split: sum.splits)

lemma map_throw_nth:
  "map_throw f xs = Inr ys \<Longrightarrow> i < length xs \<Longrightarrow> f (xs ! i) = Inr (ys ! i)"
proof (induction xs arbitrary: ys i)
  case Nil
  then show ?case by simp
next
  case (Cons x xs)
  then show ?case by (cases i) (auto split: sum.splits)
qed

lemma map_throw_Inr_iff:
  "(\<exists>ys. map_throw f xs = Inr ys) \<longleftrightarrow> (\<forall>x\<in>set xs. \<exists>y. f x = Inr y)"
  by (induction xs) (auto split: sum.splits)

lemma length_ipToBinary:
  assumes "ipToBinary ip = Inr b"
  shows "32 \<le> length b"
proof -
  from assms obtain bs where len: "length (split CHR ''.'' ip) = 4"
    and mt: "map_throw octetToBinary (split CHR ''.'' ip) = Inr bs" and b: "b = concat bs"
    by (auto simp: ipToBinary_def Let_def split: if_splits sum.splits)
  from map_throw_length[OF mt] len have l4: "length bs = 4" by simp
  then obtain b0 b1 b2 b3 where bs: "bs = [b0, b1, b2, b3]"
    by (auto simp: length_Suc_conv numeral_eq_Suc)
  have "\<And>i. i < 4 \<Longrightarrow> 8 \<le> length (bs ! i)"
    using map_throw_nth[OF mt] len length_octetToBinary by metis
  from this[of 0] this[of 1] this[of 2] this[of 3] show ?thesis
    unfolding b bs by simp
qed

lemma char_keys_take:
  "n \<le> length s \<Longrightarrow> map (char_key s) [0..<n] = keys_of n s"
  by (auto simp: keys_of_def char_key_def intro!: nth_equalityI)

lemma parseCIDR_prefixLength:
  assumes "parseCIDR cidr = Inr (ip, pl)"
  shows "\<exists>q. pl = Fin q \<and> 0 \<le> q \<and> q \<le> 32"
proof -
  from assms have "\<not> (js_isNaN pl \<or> js_less pl (Fin 0) \<or> js_less (Fin 32) pl)"
    by (auto simp: parseCIDR_def Let_def split: if_splits sum.splits)
  then show ?thesis by (cases pl) auto
qed

lemma parseCIDR_ip:
  assumes "parseCIDR cidr = Inr (ip, pl)"
  shows "\<exists>b. ipToBinary ip = Inr b"
  using assms
  by (auto simp: parseCIDR_def Let_def split: if_splits sum.splits)

lemma for_indices_of_nat: "for_indices (Fin (of_nat n)) = [0..<n]"
  by simp

section \<open>Walking the trie\<close>

lemma node_at_new: "node_at p new_TrieNode = (if p = [] then Some new_TrieNode else None)"
  by (cases p) (simp_all add: new_TrieNode_def)

lemma data_at_new: "data_at p new_TrieNode = []"
  by (simp add: data_at_def node_at_new) (simp add: new_TrieNode_def)

lemma data_at_Nil: "data_at [] node = data node"
  by (simp add: data_at_def)

lemma data_at_Cons:
  "data_at (k # ks) node = (case children node k of None \<Rightarrow> [] | Some c \<Rightarrow> data_at ks c)"
  by (simp add: data_at_def split: option.splits)

lemma map_upt_Suc': "map f [0..<Suc n] = f 0 # map (\<lambda>i. f (Suc i)) [0..<n]"
  by (simp only: map_upt_Suc)

lemma concat_all_Nil: "(\<And>x. x \<in> set xs \<Longrightarrow> f x = []) \<Longrightarrow> concat (map f xs) = []"
  by (induction xs) auto

lemma search_walk_data_at:
  "search_walk ks node = concat (map (\<lambda>i. data_at (take (Suc i) ks) node) [0..<length ks])"
proof (induction ks arbitrary: node)
  case Nil
  then show ?case by simp
next
  case (Cons k ks)
  show ?case
  proof (cases "children node k")
    case None
    then show ?thesis
      by (simp add: data_at_Cons del: upt_Suc) 
  next
    case (Some c)
    have "concat (map (\<lambda>i. data_at (take (Suc i) (k # ks)) node) [0..<length (k # ks)])
        = data_at [k] node @ concat (map (\<lambda>i. data_at (k # take (Suc i) ks) node) [0..<length ks])"
      by (simp add: map_upt_Suc' del: upt_Suc)
    also have "\<dots> = data c @ concat (map (\<lambda>i. data_at (take (Suc i) ks) c) [0..<length ks])"
      using Some by (simp add: data_at_Cons data_at_Nil)
    finally show ?thesis using Some Cons.IH[of c] by simp
  qed
qed

lemma data_at_insert_walk:
  "data_at p (insert_walk ks d node) = data_at p node @ (if p = ks then [d] else [])"
proof (induction ks arbitrary: p node)
  case Nil
  show ?case by (cases node; cases p) (simp_all add: data_at_Nil data_at_Cons)
next
  case (Cons k ks)
  obtain cs ds where node: "node = TrieNode cs ds" by (cases node)
  show ?case
  proof (cases p)
    case Nil
    then show ?thesis by (simp add: node data_at_Nil Let_def)
  next
    case (Cons k' p')
    show ?thesis
    proof (cases "k' = k")
      case False
      then show ?thesis using Cons by (simp add: node data_at_Cons Let_def)
    next
      case True
      show ?thesis
        using Cons True Cons.IH[of p']
        by (cases "cs k") (simp_all add: node data_at_Cons Let_def data_at_new)
    qed
  qed
qed

lemma node_at_insert_walk_off_path:
  "\<not> prefix p ks \<Longrightarrow> node_at p (insert_walk ks d node) = node_at p node"
proof (induction ks arbitrary: p node)
  case Nil
  then show ?case by (cases node; cases p) simp_all
next
  case (Cons k ks)
  obtain cs ds where node: "node = TrieNode cs ds" by (cases node)
  from Cons.prems obtain k' p' where p: "p = k' # p'" by (cases p) auto
  show ?case
  proof (cases "k' = k")
    case False
    then show ?thesis by (simp add: node p Let_def)
  next
    case True
    with Cons.prems p have np: "\<not> prefix p' ks" by simp
    then have "p' \<noteq> []" by auto
    then show ?thesis
      using Cons.IH[OF np] True
      by (cases "cs k") (simp_all add: node p Let_def node_at_new)
  qed
qed

lemma node_at_insert_walk_on_path:
  "prefix p ks \<Longrightarrow> node_at p (insert_walk ks d node) \<noteq> None"
proof (induction ks arbitrary: p node)
  case Nil
  then show ?case by simp
next
  case (Cons k ks)
  obtain cs ds where node: "node = TrieNode cs ds" by (cases node)
  show ?case
  proof (cases p)
    case Nil
    then show ?thesis by simp
  next
    case (Cons k' p')
    with Cons.prems have "k' = k" "prefix p' ks" by simp_all
    then show ?thesis using Cons Cons.IH[of p'] by (simp add: node Let_def)
  qed
qed

section \<open>Evaluating the codec on given strings\<close>

lemma upt_8: "[0..<8] = [0, 1, 2, 3, 4, 5, 6, 7]"
  by (simp add: upt_rec)

lemma bits_be_8:
  "bits_be 8 n = [bit_char (n div 128 mod 2), bit_char (n div 64 mod 2),
     bit_char (n div 32 mod 2), bit_char (n div 16 mod 2), bit_char (n div 8 mod 2),
     bit_char (n div 4 mod 2), bit_char (n div 2 mod 2), bit_char (n mod 2)]"
  by (simp add: bits_be_def upt_8)

lemmas eval_simps = ipToBinary_def parseCIDR_def Let_def octetToBinary_digits Number_digits
  is_digit10_iff digits_val_def digit_val_def bits_be_8 bit_char_def

lemma bitlen_1: "bitlen (Suc 0) = 1"
  by (simp add: bitlen.simps)

lemma to_double_half: "to_double (1 / 2) = Fin (1 / 2)"
proof -
  have b: "binade (1 / 2) = - 1" by (simp add: binade_def bitlen_1)
  have u: "pow2 (- 1 - 52) = 1 / 2 ^ 53" by (simp add: pow2_def)
  have q: "(1 / 2 :: rat) / (1 / 2 ^ 53) = of_int (2 ^ 52)" by simp
  have v: "of_int (round_half_even ((1 / 2 :: rat) / (1 / 2 ^ 53))) * (1 / 2 ^ 53) = (1 / 2 :: rat)"
    unfolding q round_half_even_of_int by simp
  have "(1 / 2 :: rat) < 2 ^ 0" by simp
  also have "\<dots> \<le> (2 :: rat) ^ 1024" by (rule power_increasing) simp_all
  finally have small: "\<not> pow2 1024 \<le> (1 / 2 :: rat)" by (simp add: pow2_def)
  have e: "max (binade (1 / 2)) (- 1022) = - 1" using b by simp
  have a: "\<bar>1 / 2 :: rat\<bar> = 1 / 2" by simp
  have nz: "(1 / 2 :: rat) \<noteq> 0" "0 < (1 / 2 :: rat)" by simp_all
  show ?thesis
    unfolding to_double_def Let_def using nz small
    by (simp only: a e u v if_False if_True)
qed

lemmas number_eval = Number_def trim_def is_ws_def non_decimal_def signed_decimal_def
  str_unsigned_decimal_def exponent_part_def signed_integer_def parse_digits_def
  is_digit10_iff digits_val_def digit_val_def pow10_def Let_def

lemma Number_5em1: "Number ''5e-1'' = Fin (1 / 2)"
  by (simp add: number_eval to_double_half)

lemma Number_0p5: "Number ''0.5'' = Fin (1 / 2)"
  by (simp add: number_eval to_double_half)

lemma frac_bits_half: "frac_bits (Suc k) (1 / 2) = ''1''"
  by (cases k) simp_all

lemma toString2_half: "toString2 (Fin (1 / 2)) = ''0.1''"
proof -
  have "frac_bits 1074 (1 / 2) = ''1''"
    using frac_bits_half[of 1073] by simp
  moreover have "\<lfloor>1 / 2 :: rat\<rfloor> = 0" by (rule floor_unique) simp_all
  ultimately show ?thesis
    by (simp add: unsigned_base2_def bin_digits.simps bit_char_def)
qed

lemma octetToBinary_5em1: "octetToBinary ''5e-1'' = Inr ''000000.1''"
proof -
  have "replicate 5 CHR ''0'' = ''00000''" by (simp add: eval_nat_numeral)
  then show ?thesis
    by (simp add: octetToBinary_def Number_5em1 toString2_half padStart_def del: toString2.simps)
qed

section \<open>Insertion and search\<close>

lemma insert_fails: "parseCIDR cidr = Inl e \<Longrightarrow> insert t cidr d = (Inl e, t)"
  by (simp add: insert_def)

lemma insert_succeeds:
  "insert_path cidr = Some p \<Longrightarrow> insert t cidr d = (Inr (), Trie (insert_walk p d (root t)))"
  by (auto simp: insert_def insert_path_def split: sum.splits)

lemma insert_path_None_iff: "insert_path cidr = None \<longleftrightarrow> (\<exists>e. parseCIDR cidr = Inl e)"
proof (cases "parseCIDR cidr")
  case (Inl e)
  then show ?thesis by (simp add: insert_path_def)
next
  case (Inr r)
  obtain ip pl where r: "r = (ip, pl)" by (cases r)
  from parseCIDR_ip[of cidr ip pl] Inr r obtain b where "ipToBinary ip = Inr b" by auto
  then show ?thesis using Inr r by (simp add: insert_path_def)
qed

lemma snd_insert:
  "snd (insert t cidr d) =
     (case insert_path cidr of None \<Rightarrow> t | Some p \<Rightarrow> Trie (insert_walk p d (root t)))"
proof (cases "insert_path cidr")
  case None
  then obtain e where "parseCIDR cidr = Inl e" by (auto simp: insert_path_None_iff)
  then show ?thesis using None by (simp add: insert_fails)
next
  case (Some p)
  then show ?thesis by (simp add: insert_succeeds)
qed

lemma insert_path_keys:
  assumes "parseCIDR cidr = Inr (ip, Fin q)" "ipToBinary ip = Inr b"
  shows "insert_path cidr = Some (keys_of (nat \<lceil>q\<rceil>) b)"
proof -
  from parseCIDR_prefixLength[OF assms(1)] have "q \<le> 32" by simp
  then have "\<lceil>q\<rceil> \<le> 32" by (simp add: ceiling_le_iff)
  then have "nat \<lceil>q\<rceil> \<le> nat 32" by (rule nat_mono)
  then have "nat \<lceil>q\<rceil> \<le> 32" by simp
  with length_ipToBinary[OF assms(2)] have "nat \<lceil>q\<rceil> \<le> length b" by simp
  then show ?thesis using assms by (simp add: insert_path_def char_keys_take)
qed

lemma stored_at_Cons:
  "stored_at ((c, d) # calls) p = (if insert_path c = Some p then [d] else []) @ stored_at calls p"
  by (simp add: stored_at_def)

lemma data_at_insert:
  "data_at p (root (snd (insert t c d))) =
     data_at p (root t) @ (if insert_path c = Some p then [d] else [])"
  by (cases "insert_path c") (auto simp: snd_insert data_at_insert_walk)

lemma data_at_insert_all:
  "data_at p (root (insert_all t calls)) = data_at p (root t) @ stored_at calls p"
proof (induction calls arbitrary: t)
  case Nil
  then show ?case by (simp add: stored_at_def)
next
  case (Cons call calls)
  obtain c d where call: "call = (c, d)" by (cases call)
  show ?case
    unfolding call by (simp add: Cons.IH data_at_insert stored_at_Cons)
qed

lemma take_keys_of: "i \<le> n \<Longrightarrow> take i (keys_of n s) = keys_of i s"
  by (simp add: keys_of_def take_map min_def)

lemma length_keys_of: "n \<le> length s \<Longrightarrow> length (keys_of n s) = n"
  by (simp add: keys_of_def)

lemma searchAll_data_at:
  assumes "ipToBinary ip = Inr b"
  shows "searchAll t ip = Inr (concat (map (\<lambda>i. data_at (keys_of (Suc i) b) (root t)) [0..<32]))"
proof -
  from length_ipToBinary[OF assms] have len: "32 \<le> length b" .
  then have ks: "map (char_key b) [0..<32] = keys_of 32 b" by (rule char_keys_take)
  have eq: "map (\<lambda>i. data_at (take (Suc i) (keys_of 32 b)) (root t)) [0..<32]
      = map (\<lambda>i. data_at (keys_of (Suc i) b) (root t)) [0..<32]"
    by (rule map_cong) (simp_all add: take_keys_of)
  have "searchAll t ip = Inr (search_walk (keys_of 32 b) (root t))"
    using assms by (simp add: searchAll_def ks)
  also have "search_walk (keys_of 32 b) (root t)
      = concat (map (\<lambda>i. data_at (take (Suc i) (keys_of 32 b)) (root t)) [0..<32])"
    by (simp only: search_walk_data_at length_keys_of[OF len])
  finally show ?thesis by (simp only: eq)
qed

lemma searchAll_insert_all:
  assumes "ipToBinary ip = Inr b"
  shows "searchAll (insert_all new_Trie calls) ip =
           Inr (concat (map (\<lambda>i. stored_at calls (keys_of (Suc i) b)) [0..<32]))"
proof -
  have "\<And>p. data_at p (root (insert_all new_Trie calls)) = stored_at calls p"
    by (simp add: data_at_insert_all new_Trie_def data_at_new)
  then show ?thesis by (simp add: searchAll_data_at[OF assms] del: upt_Suc)
qed

section \<open>The address codec on valid addresses\<close>

lemma map_throw_octets:
  "map Number fs = map (\<lambda>n. Fin (of_nat n)) ns \<Longrightarrow> \<forall>n\<in>set ns. n \<le> 255 \<Longrightarrow>
     map_throw octetToBinary fs = Inr (map (bits_be 8) ns)"
proof (induction fs arbitrary: ns)
  case Nil
  then show ?case by simp
next
  case (Cons f fs)
  then obtain n ns' where ns: "ns = n # ns'" by (cases ns) auto
  with Cons.prems have "octetToBinary f = Inr (bits_be 8 n)"
    by (simp add: octetToBinary_octet)
  moreover from Cons.prems ns have "map_throw octetToBinary fs = Inr (map (bits_be 8) ns')"
    by (intro Cons.IH) simp_all
  ultimately show ?case by (simp add: ns)
qed

lemma decode_four_octets:
  assumes "n0 \<le> 255" "n1 \<le> 255" "n2 \<le> 255" "n3 \<le> 255"
  shows "decode (bits_be 8 n0 @ bits_be 8 n1 @ bits_be 8 n2 @ bits_be 8 n3) = [n0, n1, n2, n3]"
proof -
  have "\<And>n. n \<le> 255 \<Longrightarrow> bin_value (bits_be 8 n) = n"
    by (rule bin_value_bits_be) simp
  with assms show ?thesis
    by (simp add: decode_def groups8_four length_bits_be)
qed

text \<open>
  C3. Let the address split at the dots into exactly four fields, each of which
  \<^verbatim>\<open>Number\<close> reads as an integer between 0 and 255 (every decimal numeral of such an
  integer is read so, by \<open>Number_digits\<close>). Then \<^verbatim>\<open>ipToBinary\<close> returns a string of
  exactly 32 characters, each \<^verbatim>\<open>0\<close> or \<^verbatim>\<open>1\<close>, which is the concatenation of the 8-bit
  big-endian representations of the four octets in field order; and grouping it by 8 and
  reading each group as a binary numeral gives the four octets back.
\<close>

theorem ipToBinary_valid_address:
  assumes "length ns = 4"
    and "map Number (split CHR ''.'' ip) = map (\<lambda>n. Fin (of_nat n)) ns"
    and "\<forall>n\<in>set ns. n \<le> 255"
  shows "\<exists>bits. ipToBinary ip = Inr bits \<and> length bits = 32
           \<and> set bits \<subseteq> {CHR ''0'', CHR ''1''}
           \<and> bits = concat (map (bits_be 8) ns)
           \<and> decode bits = ns"
proof -
  from assms(1) obtain n0 n1 n2 n3 where ns: "ns = [n0, n1, n2, n3]"
    by (auto simp: length_Suc_conv numeral_eq_Suc)
  from assms(2) have "length (map Number (split CHR ''.'' ip)) = length ns" by simp
  then have len: "length (split CHR ''.'' ip) = 4" using assms(1) by simp
  from map_throw_octets[OF assms(2,3)] len
  have enc: "ipToBinary ip = Inr (concat (map (bits_be 8) ns))"
    by (simp add: ipToBinary_def)
  have l: "length (concat (map (bits_be 8) ns)) = 32" by (simp add: ns length_bits_be)
  have s: "set (concat (map (bits_be 8) ns)) \<subseteq> {CHR ''0'', CHR ''1''}"
    using set_bits_be by (auto simp: ns)
  have d: "decode (concat (map (bits_be 8) ns)) = ns"
    using assms(3) by (simp add: ns decode_four_octets)
  from enc l s d show ?thesis by blast
qed

theorem ipToBinary_valid_address_witness:
  "length [1, 11, 40, 5 :: nat] = 4
   \<and> map Number (split CHR ''.'' ''1.11.40.5'') = map (\<lambda>n. Fin (of_nat n)) [1, 11, 40, 5]
   \<and> ipToBinary ''1.11.40.5'' = Inr ''00000001000010110010100000000101''
   \<and> decode ''00000001000010110010100000000101'' = [1, 11, 40, 5]"
proof -
  have h1: "length [1, 11, 40, 5 :: nat] = 4" by simp
  have h2: "map Number (split CHR ''.'' ''1.11.40.5'') = map (\<lambda>n. Fin (of_nat n)) [1, 11, 40, 5]"
    by (simp add: Number_digits is_digit10_iff digits_val_def digit_val_def)
  have h3: "\<forall>n\<in>set [1, 11, 40, 5 :: nat]. n \<le> 255" by simp
  have c: "concat (map (bits_be 8) [1, 11, 40, 5]) = ''00000001000010110010100000000101''"
    by (simp add: bits_be_8 bit_char_def)
  from ipToBinary_valid_address[OF h1 h2 h3] h1 h2 show ?thesis
    unfolding c by auto
qed

section \<open>What an insertion changes\<close>

lemma ip_10_0_0_0: "ipToBinary ''10.0.0.0'' = Inr ''00001010000000000000000000000000''"
  by (simp add: eval_simps)

lemma ip_10_1_2_3: "ipToBinary ''10.1.2.3'' = Inr ''00001010000000010000001000000011''"
  by (simp add: eval_simps)

lemma cidr_10_0_0_0_8: "parseCIDR ''10.0.0.0/8'' = Inr (''10.0.0.0'', Fin (of_nat 8))"
  by (simp add: eval_simps)

lemma cidr_10_1_2_3_8: "parseCIDR ''10.1.2.3/8'' = Inr (''10.1.2.3'', Fin (of_nat 8))"
  by (simp add: eval_simps)

lemma keys_of_8:
  "keys_of 8 (c0 # c1 # c2 # c3 # c4 # c5 # c6 # c7 # rest) =
     [[c0], [c1], [c2], [c3], [c4], [c5], [c6], [c7]]"
  by (simp add: keys_of_def)

lemma parseCIDR_address_field:
  "parseCIDR cidr = Inr (ip, pl) \<Longrightarrow> ip = split CHR ''/'' cidr ! 0"
  by (auto simp: parseCIDR_def Let_def split: if_splits sum.splits)

lemma insert_same_keys:
  assumes "parseCIDR c1 = Inr (a1, Fin q)" "parseCIDR c2 = Inr (a2, Fin q)"
    and "ipToBinary a1 = Inr b1" "ipToBinary a2 = Inr b2"
    and "take (nat \<lceil>q\<rceil>) b1 = take (nat \<lceil>q\<rceil>) b2"
  shows "insert t c1 d = insert t c2 d" "fst (insert t c1 d) = Inr ()"
proof -
  have "insert_path c1 = Some (keys_of (nat \<lceil>q\<rceil>) b1)"
    using assms(1,3) by (rule insert_path_keys)
  moreover have "insert_path c2 = Some (keys_of (nat \<lceil>q\<rceil>) b2)"
    using assms(2,4) by (rule insert_path_keys)
  moreover have "keys_of (nat \<lceil>q\<rceil>) b1 = keys_of (nat \<lceil>q\<rceil>) b2"
    using assms(5) by (simp add: keys_of_def)
  ultimately show "insert t c1 d = insert t c2 d" "fst (insert t c1 d) = Inr ()"
    by (simp_all add: insert_succeeds)
qed

text \<open>
  C9. \<^verbatim>\<open>insert\<close> consumes only the first \<open>p\<close> characters of the encoded base address.
  Let two CIDR strings be accepted by \<^verbatim>\<open>parseCIDR\<close> with the same prefix length \<open>p\<close>, and
  let their encoded addresses agree on the first \<open>p\<close> characters. Then both calls succeed
  (the host bits are not rejected), \<^verbatim>\<open>parseCIDR\<close> returns each address field as it is
  written (not truncated), and inserting the same record with either string gives the
  same trie, hence the same \<^verbatim>\<open>searchAll\<close> result for every query.
\<close>

theorem insert_ignores_host_bits:
  assumes "parseCIDR c1 = Inr (a1, Fin (of_nat p))"
    and "parseCIDR c2 = Inr (a2, Fin (of_nat p))"
    and "ipToBinary a1 = Inr b1"
    and "ipToBinary a2 = Inr b2"
    and "take p b1 = take p b2"
  shows "fst (insert t c1 d) = Inr () \<and> fst (insert t c2 d) = Inr ()
       \<and> a1 = split CHR ''/'' c1 ! 0 \<and> a2 = split CHR ''/'' c2 ! 0
       \<and> snd (insert t c1 d) = snd (insert t c2 d)
       \<and> (\<forall>ip. searchAll (snd (insert t c1 d)) ip = searchAll (snd (insert t c2 d)) ip)"
proof -
  have n: "nat \<lceil>of_nat p :: rat\<rceil> = p" by simp
  have t: "take (nat \<lceil>of_nat p :: rat\<rceil>) b1 = take (nat \<lceil>of_nat p :: rat\<rceil>) b2"
    using assms(5) by (simp only: n)
  from insert_same_keys[OF assms(1,2,3,4) t, of t d]
  have eq: "insert t c1 d = insert t c2 d" and ok: "fst (insert t c1 d) = Inr ()" by simp_all
  from parseCIDR_address_field[OF assms(1)] parseCIDR_address_field[OF assms(2)] eq ok
  show ?thesis by simp
qed

theorem insert_ignores_host_bits_witness:
  "parseCIDR ''10.0.0.0/8'' = Inr (''10.0.0.0'', Fin (of_nat 8))
   \<and> parseCIDR ''10.1.2.3/8'' = Inr (''10.1.2.3'', Fin (of_nat 8))
   \<and> ipToBinary ''10.0.0.0'' = Inr ''00001010000000000000000000000000''
   \<and> ipToBinary ''10.1.2.3'' = Inr ''00001010000000010000001000000011''
   \<and> take 8 ''00001010000000000000000000000000'' = take 8 ''00001010000000010000001000000011''
   \<and> fst (insert new_Trie ''10.1.2.3/8'' (1 :: nat)) = Inr ()
   \<and> snd (insert new_Trie ''10.0.0.0/8'' (1 :: nat)) = snd (insert new_Trie ''10.1.2.3/8'' 1)"
proof -
  have h: "take 8 ''00001010000000000000000000000000''
         = take 8 ''00001010000000010000001000000011''" by simp
  from insert_ignores_host_bits[OF cidr_10_0_0_0_8 cidr_10_1_2_3_8 ip_10_0_0_0 ip_10_1_2_3 h,
      of new_Trie "1 :: nat"]
    cidr_10_0_0_0_8 cidr_10_1_2_3_8 ip_10_0_0_0 ip_10_1_2_3 h
  show ?thesis by blast
qed

text \<open>
  C10. A successful \<^verbatim>\<open>insert\<close> of a CIDR string with prefix length \<open>q\<close> walks along the
  keys of the first \<open>\<lceil>q\<rceil>\<close> characters of the encoded address (\<open>\<lceil>q\<rceil> = q\<close> for an
  integer). After it, every node that is not on that path is as it was, with its whole
  subtree (so no node is created off the path and no record changes there); every node
  on the path exists; the records of every node strictly above the end of the path are
  as they were (none, for a node that the call created); and the records of the node at
  the end of the path are the old ones followed by the inserted record.
\<close>

theorem insert_frame:
  assumes "parseCIDR cidr = Inr (ip, Fin q)"
    and "ipToBinary ip = Inr b"
  shows "fst (insert t cidr d) = Inr ()
       \<and> (\<forall>p. \<not> prefix p (keys_of (nat \<lceil>q\<rceil>) b) \<longrightarrow>
              node_at p (root (snd (insert t cidr d))) = node_at p (root t))
       \<and> (\<forall>p. prefix p (keys_of (nat \<lceil>q\<rceil>) b) \<longrightarrow>
              node_at p (root (snd (insert t cidr d))) \<noteq> None)
       \<and> (\<forall>p. strict_prefix p (keys_of (nat \<lceil>q\<rceil>) b) \<longrightarrow>
              data_at p (root (snd (insert t cidr d))) = data_at p (root t))
       \<and> data_at (keys_of (nat \<lceil>q\<rceil>) b) (root (snd (insert t cidr d)))
           = data_at (keys_of (nat \<lceil>q\<rceil>) b) (root t) @ [d]"
proof -
  have path: "insert_path cidr = Some (keys_of (nat \<lceil>q\<rceil>) b)"
    using assms by (rule insert_path_keys)
  then have ins: "insert t cidr d
      = (Inr (), Trie (insert_walk (keys_of (nat \<lceil>q\<rceil>) b) d (root t)))"
    by (rule insert_succeeds)
  show ?thesis
    unfolding ins
    by (auto simp: node_at_insert_walk_off_path node_at_insert_walk_on_path
        data_at_insert_walk)
qed

theorem insert_frame_witness:
  "parseCIDR ''10.0.0.0/8'' = Inr (''10.0.0.0'', Fin (of_nat 8))
   \<and> ipToBinary ''10.0.0.0'' = Inr ''00001010000000000000000000000000''
   \<and> fst (insert new_Trie ''10.0.0.0/8'' (1 :: nat)) = Inr ()
   \<and> node_at [''1''] (root (snd (insert new_Trie ''10.0.0.0/8'' (1 :: nat)))) = None
   \<and> node_at [''0'', ''0''] (root (snd (insert new_Trie ''10.0.0.0/8'' (1 :: nat)))) \<noteq> None
   \<and> data_at [''0'', ''0''] (root (snd (insert new_Trie ''10.0.0.0/8'' (1 :: nat)))) = []
   \<and> data_at [''0'', ''0'', ''0'', ''0'', ''1'', ''0'', ''1'', ''0'']
        (root (snd (insert new_Trie ''10.0.0.0/8'' (1 :: nat)))) = [1]"
proof -
  have k: "keys_of (nat \<lceil>of_nat 8 :: rat\<rceil>) ''00001010000000000000000000000000''
         = [''0'', ''0'', ''0'', ''0'', ''1'', ''0'', ''1'', ''0'']"
    by (simp add: keys_of_8)
  note f = insert_frame[OF cidr_10_0_0_0_8 ip_10_0_0_0, of new_Trie "1 :: nat", unfolded k]
  have a: "\<not> prefix [''1''] [''0'', ''0'', ''0'', ''0'', ''1'', ''0'', ''1'', ''0'']" by simp
  have b: "prefix [''0'', ''0''] [''0'', ''0'', ''0'', ''0'', ''1'', ''0'', ''1'', ''0'']" by simp
  have c: "strict_prefix [''0'', ''0''] [''0'', ''0'', ''0'', ''0'', ''1'', ''0'', ''1'', ''0'']"
    by (simp add: strict_prefix_def)
  have n: "node_at [''1''] (root (new_Trie :: nat trie)) = None"
    by (simp add: new_Trie_def node_at_new)
  have d: "data_at p (root (new_Trie :: nat trie)) = []" for p
    by (simp add: new_Trie_def data_at_new)
  from f have 1: "fst (insert new_Trie ''10.0.0.0/8'' (1 :: nat)) = Inr ()" by blast
  from f a have 2: "node_at [''1''] (root (snd (insert new_Trie ''10.0.0.0/8'' (1 :: nat))))
      = node_at [''1''] (root new_Trie)" by blast
  from f b have 3: "node_at [''0'', ''0''] (root (snd (insert new_Trie ''10.0.0.0/8'' (1 :: nat))))
      \<noteq> None" by blast
  from f c have 4: "data_at [''0'', ''0''] (root (snd (insert new_Trie ''10.0.0.0/8'' (1 :: nat))))
      = data_at [''0'', ''0''] (root new_Trie)" by blast
  from f have 5: "data_at [''0'', ''0'', ''0'', ''0'', ''1'', ''0'', ''1'', ''0'']
        (root (snd (insert new_Trie ''10.0.0.0/8'' (1 :: nat))))
      = data_at [''0'', ''0'', ''0'', ''0'', ''1'', ''0'', ''1'', ''0''] (root new_Trie) @ [1]"
    by blast
  from 1 2 3 4 5 cidr_10_0_0_0_8 ip_10_0_0_0 show ?thesis
    by (simp only: n d append_Nil) blast
qed

section \<open>Failures and unmatched queries\<close>

lemma searchAll_fails: "ipToBinary ip = Inl e \<Longrightarrow> searchAll t ip = Inl e"
  by (simp add: searchAll_def)

lemma searchAll_fails_iff: "(\<exists>e. searchAll t ip = Inl e) \<longleftrightarrow> (\<exists>e. ipToBinary ip = Inl e)"
  by (cases "ipToBinary ip") (simp_all add: searchAll_def)

lemma stored_at_empty:
  assumes "\<forall>call\<in>set calls. insert_path (fst call) \<noteq> Some p"
  shows "stored_at calls p = []"
  using assms by (induction calls) (auto simp: stored_at_def)

lemma keys_of_prefix: "i \<le> n \<Longrightarrow> prefix (keys_of i s) (keys_of n s)"
  by (metis take_keys_of take_is_prefix)

lemma searchAll_no_match:
  assumes "ipToBinary ip = Inr b"
    and "\<forall>call\<in>set calls. \<forall>p. insert_path (fst call) = Some p \<longrightarrow> \<not> prefix p (keys_of 32 b)"
  shows "searchAll (insert_all new_Trie calls) ip = Inr []"
proof -
  have "stored_at calls (keys_of (Suc i) b) = []" if "i < 32" for i
  proof (rule stored_at_empty, rule ballI)
    fix call assume c: "call \<in> set calls"
    from that have "prefix (keys_of (Suc i) b) (keys_of 32 b)" by (intro keys_of_prefix) simp
    with assms(2) c show "insert_path (fst call) \<noteq> Some (keys_of (Suc i) b)" by blast
  qed
  then have "concat (map (\<lambda>i. stored_at calls (keys_of (Suc i) b)) [0..<32]) = []"
    by (intro concat_all_Nil) simp
  then show ?thesis by (simp only: searchAll_insert_all[OF assms(1)])
qed

lemma ip_11_0_0_0: "ipToBinary ''11.0.0.0'' = Inr ''00001011000000000000000000000000''"
  by (simp add: eval_simps)

lemma ip_five_fields: "ipToBinary ''10.0.0.0.1'' = Inl (InvalidIPFormat ''10.0.0.0.1'')"
  by (simp add: eval_simps)

lemma path_10_0_0_0_8:
  "insert_path ''10.0.0.0/8'' = Some [''0'', ''0'', ''0'', ''0'', ''1'', ''0'', ''1'', ''0'']"
proof -
  have "insert_path ''10.0.0.0/8''
      = Some (keys_of (nat \<lceil>of_nat 8 :: rat\<rceil>) ''00001010000000000000000000000000'')"
    using cidr_10_0_0_0_8 ip_10_0_0_0 by (rule insert_path_keys)
  then show ?thesis by (simp add: keys_of_8)
qed

text \<open>
  Errors of the codec pass through \<^verbatim>\<open>searchAll\<close> unchanged, whatever the trie, and
  \<^verbatim>\<open>searchAll\<close> fails on no address that the codec accepts. On an accepted address,
  when the path of no inserted CIDR is a prefix of the keys of the address, the result is
  the empty sequence.
\<close>

lemma searchAll_propagates_codec_errors:
  "(\<forall>e. ipToBinary ip = Inl e \<longrightarrow> searchAll t ip = Inl e)
   \<and> ((\<exists>e. searchAll t ip = Inl e) \<longleftrightarrow> (\<exists>e. ipToBinary ip = Inl e))
   \<and> (\<forall>b. ipToBinary ip = Inr b \<longrightarrow>
          (\<forall>call\<in>set calls. \<forall>p. insert_path (fst call) = Some p \<longrightarrow>
             \<not> prefix p (keys_of 32 b)) \<longrightarrow>
          searchAll (insert_all new_Trie calls) ip = Inr [])"
  using searchAll_fails searchAll_fails_iff searchAll_no_match by blast

lemma search_11_0_0_0:
  "searchAll (insert_all new_Trie [(''10.0.0.0/8'', d)]) ''11.0.0.0'' = Inr []"
  by (rule searchAll_no_match[OF ip_11_0_0_0]) (simp add: path_10_0_0_0_8 keys_of_def)

lemma insert_fails_iff: "(\<exists>e. fst (insert t cidr d) = Inl e) \<longleftrightarrow> (\<exists>e. parseCIDR cidr = Inl e)"
proof (cases "insert_path cidr")
  case None
  then obtain e where "parseCIDR cidr = Inl e" by (auto simp: insert_path_None_iff)
  then show ?thesis by (auto simp: insert_fails)
next
  case (Some p)
  then have "\<not> (\<exists>e. parseCIDR cidr = Inl e)"
    using insert_path_None_iff[of cidr] by simp
  then show ?thesis using Some by (simp add: insert_succeeds)
qed

lemma cidr_prefix_33: "parseCIDR ''1.11.0.0/33'' = Inl (InvalidPrefixLength ''1.11.0.0/33'')"
  by (simp add: eval_simps)

lemma cidr_bad_address: "parseCIDR ''1.11.0/16'' = Inl (InvalidIPFormat ''1.11.0'')"
  by (simp add: eval_simps)

text \<open>
  \<^verbatim>\<open>insert\<close> fails exactly on the strings that \<^verbatim>\<open>parseCIDR\<close> rejects, with the error
  of \<^verbatim>\<open>parseCIDR\<close>, and the trie after a failed call is the trie before it: whatever
  calls follow, every \<^verbatim>\<open>searchAll\<close> gives what it would give had the failed call not
  been made.
\<close>

lemma insert_rejected_leaves_trie:
  "((\<exists>e. fst (insert t cidr d) = Inl e) \<longleftrightarrow> (\<exists>e. parseCIDR cidr = Inl e))
   \<and> (\<forall>e. parseCIDR cidr = Inl e \<longrightarrow>
          insert t cidr d = (Inl e, t)
          \<and> (\<forall>rest ip. searchAll (insert_all (snd (insert t cidr d)) rest) ip
                       = searchAll (insert_all t rest) ip))"
  using insert_fails_iff[of t cidr d] by (auto simp: insert_fails)

lemma insert_prefix_33:
  "insert t ''1.11.0.0/33'' d = (Inl (InvalidPrefixLength ''1.11.0.0/33''), t)"
  using cidr_prefix_33 by (rule insert_fails)

lemma insert_bad_address:
  "insert t ''1.11.0/16'' d = (Inl (InvalidIPFormat ''1.11.0''), t)"
  using cidr_bad_address by (rule insert_fails)

section \<open>What a search reports\<close>

lemma concat_map_single:
  assumes "j < n" and "\<And>i. i < n \<Longrightarrow> i \<noteq> j \<Longrightarrow> f i = []"
  shows "concat (map f [0..<n]) = f j"
  using assms
proof (induction n)
  case 0
  then show ?case by simp
next
  case (Suc n)
  show ?case
  proof (cases "j = n")
    case True
    have "concat (map f [0..<n]) = []"
      using Suc.prems(2) True by (intro concat_all_Nil) simp
    then show ?thesis using True by simp
  next
    case False
    with Suc.prems have "j < n" by simp
    moreover have "f n = []" using Suc.prems(2)[of n] False by simp
    ultimately show ?thesis using Suc.IH Suc.prems(2) by simp
  qed
qed

lemma concat_map_split:
  assumes "j < n"
  shows "concat (map f [0..<n]) =
           concat (map f [0..<j]) @ f j @ concat (map f [Suc j..<n])"
proof -
  have "[0..<n] = [0..<j] @ [j..<n]"
    using upt_add_eq_append[of 0 j "n - j"] assms by simp
  moreover have "[j..<n] = j # [Suc j..<n]"
    using assms by (simp add: upt_conv_Cons)
  ultimately show ?thesis by simp
qed

lemma prefix_keys_of:
  assumes "prefix p (keys_of n s)" "n \<le> length s"
  shows "p = keys_of (length p) s \<and> length p \<le> n"
proof -
  from assms(1) have "p = take (length p) (keys_of n s)"
    by (metis prefix_def append_eq_conv_conj)
  moreover from assms have "length p \<le> n"
    by (metis prefix_length_le length_keys_of)
  ultimately show ?thesis by (simp add: take_keys_of)
qed

text \<open>
  What \<^verbatim>\<open>searchAll\<close> does report: the records stored under any path of at least one
  key that is a prefix of the keys of the query, in their insertion order and next to one
  another.
\<close>

lemma matching_prefix_reported:
  assumes "ipToBinary ip = Inr b" and "p \<noteq> []" and "prefix p (keys_of 32 b)"
  shows "\<exists>xs zs. searchAll (insert_all new_Trie calls) ip = Inr (xs @ stored_at calls p @ zs)"
proof -
  from length_ipToBinary[OF assms(1)] have len: "32 \<le> length b" .
  from prefix_keys_of[OF assms(3) len] have p: "p = keys_of (length p) b" and l: "length p \<le> 32"
    by simp_all
  from assms(2) obtain j where j: "length p = Suc j" by (cases p) auto
  with l have "j < 32" by simp
  from concat_map_split[OF this, of "\<lambda>i. stored_at calls (keys_of (Suc i) b)"] p j
  show ?thesis
    unfolding searchAll_insert_all[OF assms(1)] by (metis)
qed

lemma searchAll_ignores_root_data:
  "searchAll (Trie (TrieNode cs ds)) ip = searchAll (Trie (TrieNode cs [])) ip"
proof -
  have "search_walk ks (TrieNode cs ds) = search_walk ks (TrieNode cs [])" for ks
    by (cases ks) simp_all
  then show ?thesis by (cases "ipToBinary ip") (simp_all add: searchAll_def)
qed

section \<open>What the codec rejects, and more evaluations\<close>

lemma octetToBinary_Inr_iff:
  "(\<exists>y. octetToBinary f = Inr y) \<longleftrightarrow>
     \<not> (js_isNaN (Number f) \<or> js_less (Number f) (Fin 0) \<or> js_less (Fin 255) (Number f))"
  by (simp add: octetToBinary_def Let_def)

text \<open>
  What the code rejects: \<^verbatim>\<open>ipToBinary\<close> throws exactly when there are not four fields, or
  the number that \<^verbatim>\<open>Number\<close> reads from some field is \<open>NaN\<close>, below 0 or above 255. There
  is no test that the number is an integer.
\<close>

lemma ipToBinary_fails_iff:
  "(\<exists>e. ipToBinary ip = Inl e) \<longleftrightarrow>
     (length (split CHR ''.'' ip) \<noteq> 4
      \<or> (\<exists>f\<in>set (split CHR ''.'' ip).
            js_isNaN (Number f) \<or> js_less (Number f) (Fin 0) \<or> js_less (Fin 255) (Number f)))"
proof (cases "length (split CHR ''.'' ip) = 4")
  case False
  then show ?thesis by (simp add: ipToBinary_def)
next
  case True
  have "(\<exists>e. ipToBinary ip = Inl e) \<longleftrightarrow>
      \<not> (\<exists>ys. map_throw octetToBinary (split CHR ''.'' ip) = Inr ys)"
    using True by (cases "map_throw octetToBinary (split CHR ''.'' ip)") (simp_all add: ipToBinary_def)
  then show ?thesis
    using True by (simp add: map_throw_Inr_iff octetToBinary_Inr_iff)
qed

lemma parseCIDR_fails_iff:
  "(\<exists>e. parseCIDR cidr = Inl e) \<longleftrightarrow>
     (length (split CHR ''/'' cidr) \<noteq> 2
      \<or> js_isNaN (Number (split CHR ''/'' cidr ! 1))
      \<or> js_less (Number (split CHR ''/'' cidr ! 1)) (Fin 0)
      \<or> js_less (Fin 32) (Number (split CHR ''/'' cidr ! 1))
      \<or> (\<exists>e. ipToBinary (split CHR ''/'' cidr ! 0) = Inl e))"
  by (cases "ipToBinary (split CHR ''/'' cidr ! 0)") (auto simp: parseCIDR_def Let_def)

lemma ip_0_0_0_0: "ipToBinary ''0.0.0.0'' = Inr ''00000000000000000000000000000000''"
  by (simp add: eval_simps)

lemma ip_1_2_3_4: "ipToBinary ''1.2.3.4'' = Inr ''00000001000000100000001100000100''"
  by (simp add: eval_simps)

lemma ip_5em1: "ipToBinary ''5e-1.0.0.0'' = Inr ''000000.1000000000000000000000000''"
  by (simp add: ipToBinary_def octetToBinary_5em1 octetToBinary_digits is_digit10_iff
      digits_val_def digit_val_def bits_be_8 bit_char_def)

lemma cidr_0_0_0_0_0: "parseCIDR ''0.0.0.0/0'' = Inr (''0.0.0.0'', Fin 0)"
  by (simp add: eval_simps)

lemma cidr_half: "parseCIDR ''1.2.3.4/0.5'' = Inr (''1.2.3.4'', Fin (1 / 2))"
  by (simp add: parseCIDR_def Number_0p5 ip_1_2_3_4)

lemma path_root: "insert_path ''0.0.0.0/0'' = Some []"
  using insert_path_keys[OF cidr_0_0_0_0_0 ip_0_0_0_0] by (simp add: keys_of_def)

lemma path_half: "insert_path ''1.2.3.4/0.5'' = Some [''0'']"
proof -
  have "\<lceil>1 / 2 :: rat\<rceil> = 1" by (rule ceiling_unique) simp_all
  then show ?thesis
    using insert_path_keys[OF cidr_half ip_1_2_3_4] by (simp add: keys_of_def)
qed

lemma keys_of_Suc_not_Nil: "Suc i \<le> length s \<Longrightarrow> keys_of (Suc i) s \<noteq> []"
  by (cases s) (simp_all add: keys_of_def)

lemma searchAll_only_root_paths:
  assumes "ipToBinary ip = Inr b"
    and "\<forall>call\<in>set calls. insert_path (fst call) = Some [] \<or> insert_path (fst call) = None"
  shows "searchAll (insert_all new_Trie calls) ip = Inr []"
proof -
  from length_ipToBinary[OF assms(1)] have len: "32 \<le> length b" .
  have "stored_at calls (keys_of (Suc i) b) = []" if "i < 32" for i
  proof (rule stored_at_empty, rule ballI)
    fix call assume c: "call \<in> set calls"
    from that len have "keys_of (Suc i) b \<noteq> []" by (intro keys_of_Suc_not_Nil) simp
    with assms(2) c show "insert_path (fst call) \<noteq> Some (keys_of (Suc i) b)" by auto
  qed
  then have "concat (map (\<lambda>i. stored_at calls (keys_of (Suc i) b)) [0..<32]) = []"
    by (intro concat_all_Nil) simp
  then show ?thesis by (simp only: searchAll_insert_all[OF assms(1)])
qed

lemma insert_all_single: "snd (insert new_Trie c d) = insert_all new_Trie [(c, d)]"
  by simp

lemma searchAll_at_depth:
  assumes "ipToBinary ip = Inr b" and "j < 32"
    and "\<forall>call\<in>set calls. \<forall>p. insert_path (fst call) = Some p \<longrightarrow> p = [] \<or> length p = Suc j"
  shows "searchAll (insert_all new_Trie calls) ip = Inr (stored_at calls (keys_of (Suc j) b))"
proof -
  from length_ipToBinary[OF assms(1)] have len: "32 \<le> length b" .
  have "stored_at calls (keys_of (Suc i) b) = []" if "i < 32" "i \<noteq> j" for i
  proof (rule stored_at_empty, rule ballI)
    fix call assume c: "call \<in> set calls"
    from that len have l: "length (keys_of (Suc i) b) = Suc i" by (intro length_keys_of) simp
    show "insert_path (fst call) \<noteq> Some (keys_of (Suc i) b)"
    proof
      assume "insert_path (fst call) = Some (keys_of (Suc i) b)"
      with assms(3) c have "keys_of (Suc i) b = [] \<or> length (keys_of (Suc i) b) = Suc j" by blast
      with l that(2) show False by auto
    qed
  qed
  with assms(2) have "concat (map (\<lambda>i. stored_at calls (keys_of (Suc i) b)) [0..<32])
      = stored_at calls (keys_of (Suc j) b)"
    by (intro concat_map_single) simp_all
  then show ?thesis by (simp only: searchAll_insert_all[OF assms(1)])
qed

section \<open>Where the code departs from the specification\<close>

lemma in_stored_at:
  "(c, d) \<in> set calls \<Longrightarrow> insert_path c = Some p \<Longrightarrow> d \<in> set (stored_at calls p)"
  by (force simp: stored_at_def)

text \<open>
  Below the root the containment order holds: when the path of \<open>A\<close> has at least one
  key and is a strict prefix of the path of \<open>B\<close>, every query whose keys start with the
  path of \<open>B\<close> reports \<open>A\<close> and, after it, \<open>B\<close>.
\<close>

lemma containment_below_root:
  assumes "ipToBinary ip = Inr b"
    and "(ca, A) \<in> set calls" "insert_path ca = Some pa"
    and "(cb, B) \<in> set calls" "insert_path cb = Some pb"
    and "pa \<noteq> []" "strict_prefix pa pb" "prefix pb (keys_of 32 b)"
  shows "\<exists>xs ys zs. searchAll (insert_all new_Trie calls) ip = Inr (xs @ A # ys @ B # zs)"
proof -
  let ?f = "\<lambda>i. stored_at calls (keys_of (Suc i) b)"
  from length_ipToBinary[OF assms(1)] have len: "32 \<le> length b" .
  from assms(7,8) have "prefix pa (keys_of 32 b)" by (auto simp: strict_prefix_def)
  from prefix_keys_of[OF this len] have pa: "pa = keys_of (length pa) b" by simp
  from prefix_keys_of[OF assms(8) len] have pb: "pb = keys_of (length pb) b"
    and lb: "length pb \<le> 32" by simp_all
  from assms(6) obtain i where i: "length pa = Suc i" by (cases pa) auto
  from assms(7) have "length pa < length pb" by (rule prefix_length_less)
  with i obtain j where j: "length pb = Suc j" and ij: "i < j" by (cases "length pb") auto
  from j lb have j32: "j < 32" by simp
  from in_stored_at[OF assms(2,3)] pa i have "A \<in> set (?f i)" by simp
  then obtain u v where fi: "?f i = u @ A # v" by (auto dest: split_list)
  from in_stored_at[OF assms(4,5)] pb j have "B \<in> set (?f j)" by simp
  then obtain u' v' where fj: "?f j = u' @ B # v'" by (auto dest: split_list)
  have "concat (map ?f [0..<32])
      = concat (map ?f [0..<j]) @ ?f j @ concat (map ?f [Suc j..<32])"
    using j32 by (rule concat_map_split)
  also have "concat (map ?f [0..<j])
      = concat (map ?f [0..<i]) @ ?f i @ concat (map ?f [Suc i..<j])"
    using ij by (rule concat_map_split)
  finally have "concat (map ?f [0..<32])
      = (concat (map ?f [0..<i]) @ u) @ A # (v @ concat (map ?f [Suc i..<j]) @ u') @ B
        # (v' @ concat (map ?f [Suc j..<32]))"
    by (simp add: fi fj)
  then show ?thesis
    unfolding searchAll_insert_all[OF assms(1)] by blast
qed

text \<open>
  C1. The claim fails on the code. \<^verbatim>\<open>insert\<close> of \<^verbatim>\<open>0.0.0.0/0\<close> succeeds and stores the
  record in the \<^verbatim>\<open>data\<close> of the root, but the loop of \<^verbatim>\<open>searchAll\<close> only collects the
  \<^verbatim>\<open>data\<close> of the children it moves to, never that of the root: the query
  \<^verbatim>\<open>1.2.3.4\<close> returns the empty sequence, and no result of \<^verbatim>\<open>searchAll\<close> depends on
  the records of the root.
\<close>

theorem root_record_not_reported:
  "fst (insert new_Trie ''0.0.0.0/0'' d) = Inr ()
   \<and> data (root (snd (insert new_Trie ''0.0.0.0/0'' d))) = [d]
   \<and> searchAll (snd (insert new_Trie ''0.0.0.0/0'' d)) ''1.2.3.4'' = Inr []
   \<and> searchAll (Trie (TrieNode cs ds)) ip = searchAll (Trie (TrieNode cs [])) ip"
proof -
  have 1: "insert new_Trie ''0.0.0.0/0'' d = (Inr (), Trie (insert_walk [] d (root new_Trie)))"
    using path_root by (rule insert_succeeds)
  have 2: "searchAll (insert_all new_Trie [(''0.0.0.0/0'', d)]) ''1.2.3.4'' = Inr []"
    by (rule searchAll_only_root_paths[OF ip_1_2_3_4]) (simp add: path_root)
  have 3: "data (root (Trie (insert_walk [] d (root new_Trie)))) = [d]"
    by (simp add: new_Trie_def new_TrieNode_def)
  from 2 have 4: "searchAll (snd (insert new_Trie ''0.0.0.0/0'' d)) ''1.2.3.4'' = Inr []"
    by (simp only: insert_all_single)
  show ?thesis
    using 3 4 searchAll_ignores_root_data[of cs ds ip] by (simp add: 1)
qed

text \<open>
  C2. The claim fails on the code when \<open>A\<close> has prefix length 0. With \<open>A\<close> inserted
  under \<^verbatim>\<open>0.0.0.0/0\<close> and \<open>B\<close> under \<^verbatim>\<open>10.0.0.0/8\<close>, the query \<^verbatim>\<open>10.1.2.3\<close>, whose
  first 8 bits are those of \<open>B\<close>, returns \<open>B\<close> alone: the record of the root is not
  collected. (For a prefix length of at least 1 the claim holds, lemma
  \<open>containment_below_root\<close>.)
\<close>

theorem containment_fails_at_root:
  "searchAll (insert_all new_Trie [(''0.0.0.0/0'', A), (''10.0.0.0/8'', B)]) ''10.1.2.3''
     = Inr [B]"
proof -
  have "searchAll (insert_all new_Trie [(''0.0.0.0/0'', A), (''10.0.0.0/8'', B)]) ''10.1.2.3''
      = Inr (stored_at [(''0.0.0.0/0'', A), (''10.0.0.0/8'', B)]
               (keys_of (Suc 7) ''00001010000000010000001000000011''))"
    by (rule searchAll_at_depth[OF ip_10_1_2_3]) (simp_all add: path_root path_10_0_0_0_8)
  also have "keys_of (Suc 7) ''00001010000000010000001000000011''
      = [''0'', ''0'', ''0'', ''0'', ''1'', ''0'', ''1'', ''0'']"
    by (simp add: keys_of_def)
  finally show ?thesis by (simp add: stored_at_def path_root path_10_0_0_0_8)
qed

text \<open>
  C4. The claim fails on the code for the prefix of length 0. Two records inserted under
  \<^verbatim>\<open>0.0.0.0/0\<close> are both stored in the root, in insertion order, but the query
  \<^verbatim>\<open>1.2.3.4\<close>, which matches that prefix, returns neither. (For a path of at least one
  key the records of one node are reported together in insertion order, lemma
  \<open>matching_prefix_reported\<close>.)
\<close>

theorem multiplicity_fails_at_root:
  "data (root (insert_all new_Trie [(''0.0.0.0/0'', A), (''0.0.0.0/0'', B)])) = [A, B]
   \<and> searchAll (insert_all new_Trie [(''0.0.0.0/0'', A), (''0.0.0.0/0'', B)]) ''1.2.3.4''
       = Inr []"
proof -
  have "data_at [] (root (insert_all new_Trie [(''0.0.0.0/0'', A), (''0.0.0.0/0'', B)])) = [A, B]"
    by (simp only: data_at_insert_all)
       (simp add: new_Trie_def data_at_new stored_at_def path_root)
  then have 1: "data (root (insert_all new_Trie [(''0.0.0.0/0'', A), (''0.0.0.0/0'', B)])) = [A, B]"
    by (simp only: data_at_Nil)
  have 2: "searchAll (insert_all new_Trie [(''0.0.0.0/0'', A), (''0.0.0.0/0'', B)]) ''1.2.3.4''
       = Inr []"
    by (rule searchAll_only_root_paths[OF ip_1_2_3_4]) (simp add: path_root)
  from 1 2 show ?thesis by (rule conjI)
qed

text \<open>
  C5. The claim fails on the code. The field \<^verbatim>\<open>5e-1\<close> is not an integer, but
  \<^verbatim>\<open>Number\<close> reads it as 0.5, which is neither \<open>NaN\<close>, nor below 0, nor above 255, and
  the code tests nothing else: \<^verbatim>\<open>ipToBinary\<close> does not throw on \<^verbatim>\<open>5e-1.0.0.0\<close> and
  returns a string with a point in it, the base-2 text \<^verbatim>\<open>0.1\<close> of 0.5 padded to 8
  characters.
\<close>

theorem ipToBinary_accepts_fraction:
  "ipToBinary ''5e-1.0.0.0'' = Inr ''000000.1000000000000000000000000''"
  by (rule ip_5em1)

text \<open>
  C6. The claim fails on the code. The prefix-length field \<^verbatim>\<open>0.5\<close> is not an integer,
  but \<^verbatim>\<open>Number\<close> reads it as 0.5, which passes the three tests of \<^verbatim>\<open>parseCIDR\<close>: the
  call returns the address with the prefix length 0.5.
\<close>

theorem parseCIDR_accepts_fraction:
  "parseCIDR ''1.2.3.4/0.5'' = Inr (''1.2.3.4'', Fin (1 / 2))"
  by (rule cidr_half)

text \<open>
  C7. The first half of the claim holds (lemma \<open>searchAll_propagates_codec_errors\<close>,
  and \<open>search_11_0_0_0\<close> for its example); the second fails on the code for a malformed
  address that \<^verbatim>\<open>ipToBinary\<close> accepts. With only \<^verbatim>\<open>10.0.0.0/8\<close> inserted, the query
  \<^verbatim>\<open>5e-1.0.0.0\<close> does not fail: it returns the empty sequence, as a valid address that
  matches nothing does.
\<close>

theorem searchAll_malformed_gives_empty:
  "searchAll (insert_all new_Trie [(''10.0.0.0/8'', d)]) ''5e-1.0.0.0'' = Inr []"
  by (rule searchAll_no_match[OF ip_5em1]) (simp add: path_10_0_0_0_8 keys_of_def)

text \<open>
  C8. The claim holds for every string that \<^verbatim>\<open>parseCIDR\<close> rejects (lemma
  \<open>insert_rejected_leaves_trie\<close>); it fails on the code for a malformed string that
  \<^verbatim>\<open>parseCIDR\<close> accepts. \<^verbatim>\<open>insert\<close> of \<^verbatim>\<open>1.2.3.4/0.5\<close> succeeds, creates the child
  \<^verbatim>\<open>0\<close> of the root and stores the record there, and the query \<^verbatim>\<open>1.2.3.4\<close> then
  returns it.
\<close>

theorem insert_malformed_changes_trie:
  "fst (insert new_Trie ''1.2.3.4/0.5'' d) = Inr ()
   \<and> data_at [''0''] (root (snd (insert new_Trie ''1.2.3.4/0.5'' d))) = [d]
   \<and> searchAll (snd (insert new_Trie ''1.2.3.4/0.5'' d)) ''1.2.3.4'' = Inr [d]"
proof -
  have 1: "fst (insert new_Trie ''1.2.3.4/0.5'' d) = Inr ()"
    by (simp add: insert_succeeds[OF path_half])
  have 2: "data_at [''0''] (root (insert_all new_Trie [(''1.2.3.4/0.5'', d)])) = [d]"
    by (simp only: data_at_insert_all)
       (simp add: new_Trie_def data_at_new stored_at_def path_half)
  have "searchAll (insert_all new_Trie [(''1.2.3.4/0.5'', d)]) ''1.2.3.4''
      = Inr (stored_at [(''1.2.3.4/0.5'', d)]
               (keys_of (Suc 0) ''00000001000000100000001100000100''))"
    by (rule searchAll_at_depth[OF ip_1_2_3_4]) (simp_all add: path_half)
  also have "keys_of (Suc 0) ''00000001000000100000001100000100'' = [''0'']"
    by (simp add: keys_of_def)
  finally have 3: "searchAll (insert_all new_Trie [(''1.2.3.4/0.5'', d)]) ''1.2.3.4'' = Inr [d]"
    by (simp add: stored_at_def path_half)
  from 1 2 3 show ?thesis by (simp only: insert_all_single) 
qed

end
